theory Spec2Isabelle
  imports Main "HOL-Library.Log_Nat"
begin

section \<open>Python strings\<close>

text \<open>
  A Python \<open>str\<close> is a sequence of Unicode code points and \<open>len\<close> counts code points,
  so a string of the model is a list of code points (natural numbers). Literals of the
  source are written \<open>py ''...''\<close>.
\<close>

type_synonym pystr = "nat list"

definition py :: "string \<Rightarrow> pystr" where
  "py s = map of_char s"

text \<open>
  \<open>str.isspace\<close> on one character: the code points that \<open>str.strip()\<close>, \<open>str.split()\<close>
  and the regular expression class \<open>\s\<close> treat as whitespace. The list is the complete
  Unicode one: U+0009..U+000D, U+001C..U+0020, U+0085, U+00A0, U+1680, U+2000..U+200A,
  U+2028, U+2029, U+202F, U+205F and U+3000.
\<close>

definition is_space :: "nat \<Rightarrow> bool" where
  "is_space c \<longleftrightarrow>
     (9 \<le> c \<and> c \<le> 13) \<or> (28 \<le> c \<and> c \<le> 32) \<or> c = 133 \<or> c = 160 \<or> c = 5760 \<or>
     (8192 \<le> c \<and> c \<le> 8202) \<or> c = 8232 \<or> c = 8233 \<or> c = 8239 \<or> c = 8287 \<or> c = 12288"

text \<open>\<open>s.strip()\<close>: leading and trailing whitespace removed.\<close>

definition strip :: "pystr \<Rightarrow> pystr" where
  "strip s = rev (dropWhile is_space (rev (dropWhile is_space s)))"

text \<open>
  \<open>s.split()\<close> with no separator: the maximal runs of non-whitespace characters, in order.
  \<open>split_from cur s\<close> scans \<open>s\<close> with the word read so far in \<open>cur\<close>.
\<close>

fun split_from :: "pystr \<Rightarrow> pystr \<Rightarrow> pystr list" where
  "split_from cur [] = (if cur = [] then [] else [cur])"
| "split_from cur (c # cs) =
     (if is_space c then (if cur = [] then split_from [] cs else cur # split_from [] cs)
      else split_from (cur @ [c]) cs)"

definition split :: "pystr \<Rightarrow> pystr list" where
  "split s = split_from [] s"

text \<open>\<open>sep.join(parts)\<close>.\<close>

fun join :: "pystr \<Rightarrow> pystr list \<Rightarrow> pystr" where
  "join sep [] = []"
| "join sep [x] = x"
| "join sep (x # y # ys) = x @ sep @ join sep (y # ys)"

text \<open>
  \<open>needle in hay\<close> on strings: \<open>needle\<close> occurs in \<open>hay\<close> as a contiguous substring.
\<close>

fun starts_with :: "pystr \<Rightarrow> pystr \<Rightarrow> bool" where
  "starts_with [] hay = True"
| "starts_with (x # xs) [] = False"
| "starts_with (x # xs) (y # ys) = (x = y \<and> starts_with xs ys)"

fun contains :: "pystr \<Rightarrow> pystr \<Rightarrow> bool" where
  "contains needle [] = (needle = [])"
| "contains needle (c # cs) = (starts_with needle (c # cs) \<or> contains needle cs)"

text \<open>
  \<open>s.lower()\<close>. The letters A..Z and the Latin-1 capitals U+00C0..U+00DE (without the
  multiplication sign U+00D7) move up by 32; the Kelvin sign U+212A becomes \<open>k\<close> and
  U+0130 becomes \<open>i\<close> followed by U+0307. These are all the code points whose lower case
  contains an ASCII character. Every other code point is left as it is: Python maps it to
  one or more code points outside ASCII, and the only use of \<open>lower\<close> in this program is a
  search for ASCII keywords, which cannot tell such code points apart.
\<close>

definition lower_char :: "nat \<Rightarrow> pystr" where
  "lower_char c =
     (if 65 \<le> c \<and> c \<le> 90 then [c + 32]
      else if (192 \<le> c \<and> c \<le> 214) \<or> (216 \<le> c \<and> c \<le> 222) then [c + 32]
      else if c = 8490 then [107]
      else if c = 304 then [105, 775]
      else [c])"

definition lower :: "pystr \<Rightarrow> pystr" where
  "lower s = concat (map lower_char s)"

section \<open>Documents and content types\<close>

text \<open>
  A langchain \<open>Document\<close>: the text in \<open>page_content\<close> and a metadata dictionary, which
  this program never reads.
\<close>

record doc =
  page_content :: pystr
  metadata :: "(pystr \<times> pystr) list"

text \<open>The three labels \<open>"technical"\<close>, \<open>"narrative"\<close> and \<open>"general"\<close>.\<close>

datatype content_type = Technical | Narrative | General

definition technical_indicators :: "pystr list" where
  "technical_indicators = map py
     [''algorithm'', ''function'', ''method'', ''class'', ''variable'', ''data structure'',
      ''implementation'', ''code'', ''programming'', ''software'', ''api'', ''database'',
      ''framework'', ''library'', ''python'', ''javascript'', ''java'', ''c++'', ''sql'']"

definition narrative_indicators :: "pystr list" where
  "narrative_indicators = map py
     [''story'', ''character'', ''plot'', ''narrative'', ''chapter'', ''scene'',
      ''dialogue'', ''protagonist'', ''antagonist'', ''setting'', ''theme'']"

text \<open>
  \<open>sum(1 for indicator in indicators if indicator in text_lower)\<close>: the number of
  indicators of the list that occur in the text.
\<close>

definition score :: "pystr list \<Rightarrow> pystr \<Rightarrow> nat" where
  "score indicators text_lower = length (filter (\<lambda>indicator. contains indicator text_lower) indicators)"

definition detect_content_type :: "doc list \<Rightarrow> content_type" where
  "detect_content_type docs =
     (if docs = [] then General
      else
        let full_text = join (py '' '') (map page_content (take 3 docs));
            text_lower = lower full_text;
            technical_score = score technical_indicators text_lower;
            narrative_score = score narrative_indicators text_lower
        in if technical_score > narrative_score \<and> technical_score > 3 then Technical
           else if narrative_score > technical_score \<and> narrative_score > 2 then Narrative
           else General)"

text \<open>
  The classifier as the specification words it: the label is decided by the number of
  occurrences of the keywords in the text, every repetition counted.
\<close>

fun occurrences :: "pystr \<Rightarrow> pystr \<Rightarrow> nat" where
  "occurrences needle [] = 0"
| "occurrences needle (c # cs) =
     (if starts_with needle (c # cs) then 1 else 0) + occurrences needle cs"

definition occurrence_count :: "pystr list \<Rightarrow> pystr \<Rightarrow> nat" where
  "occurrence_count indicators text_lower = sum_list (map (\<lambda>k. occurrences k text_lower) indicators)"

definition classify_by_occurrences :: "doc list \<Rightarrow> content_type" where
  "classify_by_occurrences docs =
     (let text_lower = lower (join (py '' '') (map page_content (take 3 docs)));
          technical_count = occurrence_count technical_indicators text_lower;
          narrative_count = occurrence_count narrative_indicators text_lower
      in if technical_count > narrative_count \<and> technical_count > 3 then Technical
         else if narrative_count > technical_count \<and> narrative_count > 2 then Narrative
         else General)"

section \<open>Python floats\<close>

text \<open>
  A Python \<open>float\<close> is an IEEE 754 binary64 number. The model represents a finite float by
  the rational number it denotes and rounds the exact result of every operation to the
  nearest representable number, ties to the even significand, as the hardware does.
  Overflow to infinity is left out: a \<open>str\<close> holds fewer than \<open>2^63\<close> characters, and no
  value computed here comes near \<open>2^1024\<close>.
\<close>

definition round_half_even :: "rat \<Rightarrow> int" where
  "round_half_even x =
     (let f = \<lfloor>x\<rfloor>; d = x - of_int f
      in if d < 1 / 2 then f else if 1 / 2 < d then f + 1 else if even f then f else f + 1)"

text \<open>
  The exponent of the binade of a positive \<open>x\<close>: the \<open>e\<close> with \<open>2^e \<le> x < 2^(e+1)\<close>, but
  never below \<open>-1022\<close> (the subnormal numbers share the spacing of the smallest binade).
\<close>

definition float_exponent :: "rat \<Rightarrow> int" where
  "float_exponent x = max (bitlen \<lfloor>x * 2 ^ 1074\<rfloor> - 1075) (- 1022)"

text \<open>Rounding to binary64: 53 significant bits, spacing \<open>2^(e-52)\<close> in binade \<open>e\<close>.\<close>

definition float_round :: "rat \<Rightarrow> rat" where
  "float_round x =
     (if x = 0 then 0
      else let q = power_int 2 (float_exponent \<bar>x\<bar> - 52)
           in sgn x * of_int (round_half_even (\<bar>x\<bar> / q)) * q)"

definition float_of_int :: "int \<Rightarrow> rat" where
  "float_of_int n = float_round (of_int n)"

definition float_add :: "rat \<Rightarrow> rat \<Rightarrow> rat" where
  "float_add a b = float_round (a + b)"

definition float_mul :: "rat \<Rightarrow> rat \<Rightarrow> rat" where
  "float_mul a b = float_round (a * b)"

definition float_div :: "rat \<Rightarrow> rat \<Rightarrow> rat" where
  "float_div a b = float_round (a / b)"

text \<open>\<open>int(x)\<close> on a float truncates towards zero.\<close>

definition int_of_float :: "rat \<Rightarrow> int" where
  "int_of_float x = (if 0 \<le> x then \<lfloor>x\<rfloor> else \<lceil>x\<rceil>)"

section \<open>Token estimator\<close>

text \<open>
  \<open>estimate_tokens\<close>. The literals \<open>1.3\<close> and \<open>3.5\<close> denote the floats nearest to them; an
  \<open>int\<close> operand of \<open>*\<close> and \<open>/\<close> is converted to a float first.
\<close>

definition estimate_tokens :: "pystr \<Rightarrow> int" where
  "estimate_tokens text =
     (if text = [] then 0
      else
        let words = int (length (split text));
            chars = int (length text);
            word_based_tokens = float_mul (float_of_int words) (float_round (13 / 10));
            char_based_tokens = float_div (float_of_int chars) (float_round (35 / 10))
        in int_of_float
             (float_div (float_add word_based_tokens char_based_tokens) (float_of_int 2)))"

section \<open>Exceptions, the logger and the collaborators\<close>

text \<open>
  An exception is a value: its class and the message \<open>str(e)\<close>. \<open>ValueError\<close> and
  \<open>RuntimeError\<close> are the two classes the program raises itself; \<open>OtherException\<close> stands
  for every other subclass of \<open>Exception\<close> a collaborator may raise.
\<close>

datatype exn = ValueError pystr | RuntimeError pystr | OtherException pystr

fun exn_str :: "exn \<Rightarrow> pystr" where
  "exn_str (ValueError m) = m"
| "exn_str (RuntimeError m) = m"
| "exn_str (OtherException m) = m"

text \<open>\<open>str(n)\<close> for an \<open>int\<close>, as the f-strings format it.\<close>

function str_nat :: "nat \<Rightarrow> pystr" where
  "str_nat n = (if n < 10 then [48 + n] else str_nat (n div 10) @ [48 + n mod 10])"
  by pat_completeness auto
termination
  by (relation "measure (\<lambda>n. n)") auto

declare str_nat.simps [simp del]

definition str_int :: "int \<Rightarrow> pystr" where
  "str_int i = (if i < 0 then py ''-'' @ str_nat (nat (- i)) else str_nat (nat i))"

fun content_type_str :: "content_type \<Rightarrow> pystr" where
  "content_type_str Technical = py ''technical''"
| "content_type_str Narrative = py ''narrative''"
| "content_type_str General = py ''general''"

datatype level = INFO | WARNING | ERROR

text \<open>
  A prompt template is one of the nine string constants of \<open>create_enhanced_prompts\<close>, known
  by its role and its content type; the wording of the templates is not part of the model.
  What the language model receives, a template formatted with a text for its placeholder
  \<open>{text}\<close>, is the pair of the two.
\<close>

datatype template = StuffTemplate content_type | MapTemplate content_type | CombineTemplate content_type

type_synonym request = "template \<times> pystr"

text \<open>
  What a run leaves behind: the requests sent to the language model, in order, and the
  lines written to the logger.
\<close>

record trace =
  llm_calls :: "request list"
  log_lines :: "(level \<times> pystr) list"

definition logger :: "level \<Rightarrow> pystr \<Rightarrow> trace \<Rightarrow> trace" where
  "logger lvl msg tr = tr\<lparr>log_lines := log_lines tr @ [(lvl, msg)]\<rparr>"

text \<open>
  The collaborators outside the repository. \<open>llm\<close> is the language model handle: given the
  requests it has answered so far and a new request, it returns a completion or raises;
  two identical requests may be answered differently. \<open>split_documents\<close> is langchain's
  \<open>RecursiveCharacterTextSplitter\<close>, given the chunk size, the overlap and the separators;
  \<open>document_separator\<close> is the string langchain puts between the texts it concatenates.
\<close>

record env =
  llm :: "request list \<Rightarrow> request \<Rightarrow> exn + pystr"
  split_documents :: "nat \<Rightarrow> nat \<Rightarrow> pystr list \<Rightarrow> doc list \<Rightarrow> exn + doc list"
  document_separator :: pystr

definition call_llm :: "env \<Rightarrow> request \<Rightarrow> trace \<Rightarrow> (exn + pystr) \<times> trace" where
  "call_llm E req tr = (llm E (llm_calls tr) req, tr\<lparr>llm_calls := llm_calls tr @ [req]\<rparr>)"

section \<open>Chunker and prompt builder\<close>

definition MAX_TOKENS :: int where "MAX_TOKENS = 6000"
definition MIN_CHUNK_SIZE :: nat where "MIN_CHUNK_SIZE = 500"
definition MAX_CHUNK_SIZE :: nat where "MAX_CHUNK_SIZE = 2000"
definition CHUNK_OVERLAP :: nat where "CHUNK_OVERLAP = 300"

definition separators :: "pystr list" where
  "separators = [[10, 10], [10], py ''. '', py ''! '', py ''? '', py '' '', []]"

definition chunk_documents :: "env \<Rightarrow> doc list \<Rightarrow> content_type \<Rightarrow> trace \<Rightarrow> doc list \<times> trace" where
  "chunk_documents E docs content_type tr =
     (let (chunk_size, chunk_overlap) =
            (case content_type of
               Technical \<Rightarrow> (MIN_CHUNK_SIZE, 200)
             | Narrative \<Rightarrow> (MAX_CHUNK_SIZE, CHUNK_OVERLAP)
             | General \<Rightarrow> (1200, 250))
      in case split_documents E chunk_size chunk_overlap separators docs of
           Inr split_docs \<Rightarrow>
             (let split_docs' = filter (\<lambda>d. length (strip (page_content d)) > 50) split_docs
              in (split_docs',
                  logger INFO (py ''Created '' @ str_int (int (length split_docs')) @ py '' chunks from '' @
                               str_int (int (length docs)) @ py '' documents'') tr))
         | Inl e \<Rightarrow> (docs, logger ERROR (py ''Error in document chunking: '' @ exn_str e) tr))"

definition create_enhanced_prompts :: "content_type \<Rightarrow> template \<times> template \<times> template" where
  "create_enhanced_prompts content_type =
     (StuffTemplate content_type, MapTemplate content_type, CombineTemplate content_type)"

section \<open>Summarization orchestrator\<close>

text \<open>
  Modelled from the spec: \<open>load_summarize_chain\<close> and \<open>chain.run\<close> are langchain library
  code, not under src/. Section 4.5, step 4 of the specification says what the two chain
  types do. The single-pass chain formats the stuff prompt with the full concatenated text
  and invokes the language model once.
\<close>

definition run_stuff_chain :: "env \<Rightarrow> template \<Rightarrow> doc list \<Rightarrow> trace \<Rightarrow> (exn + pystr) \<times> trace" where
  "run_stuff_chain E prompt docs tr =
     call_llm E (prompt, join (document_separator E) (map page_content docs)) tr"

text \<open>
  Modelled from the spec: the map step of the map-reduce chain invokes the language model
  once per chunk with the map prompt, in order; an exception of a call ends the run.
\<close>

fun map_step :: "env \<Rightarrow> template \<Rightarrow> doc list \<Rightarrow> trace \<Rightarrow> (exn + pystr list) \<times> trace" where
  "map_step E map_prompt [] tr = (Inr [], tr)"
| "map_step E map_prompt (d # ds) tr =
     (case call_llm E (map_prompt, page_content d) tr of
        (Inl e, tr1) \<Rightarrow> (Inl e, tr1)
      | (Inr summary, tr1) \<Rightarrow>
          (case map_step E map_prompt ds tr1 of
             (Inl e, tr2) \<Rightarrow> (Inl e, tr2)
           | (Inr summaries, tr2) \<Rightarrow> (Inr (summary # summaries), tr2)))"

text \<open>
  Modelled from the spec: the map-reduce chain runs the map step and then invokes the
  language model once more, with the combine prompt over the concatenated chunk summaries.
\<close>

definition run_map_reduce_chain ::
  "env \<Rightarrow> template \<Rightarrow> template \<Rightarrow> doc list \<Rightarrow> trace \<Rightarrow> (exn + pystr) \<times> trace" where
  "run_map_reduce_chain E map_prompt combine_prompt docs tr =
     (case map_step E map_prompt docs tr of
        (Inl e, tr1) \<Rightarrow> (Inl e, tr1)
      | (Inr summaries, tr1) \<Rightarrow>
          call_llm E (combine_prompt, join (document_separator E) summaries) tr1)"

text \<open>
  The body of the \<open>try\<close> block of \<open>summarize_chain\<close>: one attempt. It yields the stripped
  summary, or the exception that the \<open>except Exception\<close> clause catches.
\<close>

definition attempt_body ::
  "env \<Rightarrow> doc list \<Rightarrow> content_type \<Rightarrow> int \<Rightarrow> template \<times> template \<times> template \<Rightarrow> trace
     \<Rightarrow> (exn + pystr) \<times> trace" where
  "attempt_body E docs content_type total_tokens prompts tr =
     (case prompts of (stuff_prompt, map_prompt, combine_prompt) \<Rightarrow>
        (case (if total_tokens < MAX_TOKENS then
                 run_stuff_chain E stuff_prompt docs
                   (logger INFO (py ''Using 'stuff' chain for summarization'') tr)
               else
                 (case chunk_documents E docs content_type
                         (logger INFO (py ''Using 'map_reduce' chain for summarization'') tr) of
                    (chunked_docs, tr1) \<Rightarrow>
                      run_map_reduce_chain E map_prompt combine_prompt chunked_docs tr1)) of
           (Inl e, tr2) \<Rightarrow> (Inl e, tr2)
         | (Inr result, tr2) \<Rightarrow>
             if result = [] \<or> length (strip result) < 50
             then (Inl (ValueError (py ''Generated summary is too short'')), tr2)
             else (Inr (strip result), tr2)))"

text \<open>
  The loop \<open>for attempt in range(max_retries)\<close>, entered at \<open>attempt\<close>, and the \<open>return\<close>
  after it.
\<close>

function retry_loop ::
  "env \<Rightarrow> doc list \<Rightarrow> content_type \<Rightarrow> int \<Rightarrow> template \<times> template \<times> template \<Rightarrow> int \<Rightarrow> int \<Rightarrow> trace
     \<Rightarrow> (exn + pystr) \<times> trace" where
  "retry_loop E docs content_type total_tokens prompts max_retries attempt tr =
     (if attempt < max_retries then
        (case attempt_body E docs content_type total_tokens prompts tr of
           (Inr result, tr1) \<Rightarrow> (Inr result, tr1)
         | (Inl e, tr1) \<Rightarrow>
             (let tr2 = logger WARNING
                          (py ''Attempt '' @ str_int (attempt + 1) @ py '' failed: '' @ exn_str e) tr1
              in if attempt = max_retries - 1
                 then (Inl (RuntimeError (py ''Failed to generate summary after '' @ str_int max_retries @
                                          py '' attempts: '' @ exn_str e)), tr2)
                 else retry_loop E docs content_type total_tokens prompts max_retries (attempt + 1) tr2))
      else (Inr (py ''Summary generation failed after multiple attempts.''), tr))"
  by pat_completeness auto
termination
  by (relation "measure (\<lambda>(E, docs, content_type, total_tokens, prompts, max_retries, attempt, tr).
                           nat (max_retries - attempt))") auto

declare retry_loop.simps [simp del]

definition summarize_chain :: "env \<Rightarrow> doc list \<Rightarrow> int \<Rightarrow> trace \<Rightarrow> (exn + pystr) \<times> trace" where
  "summarize_chain E docs max_retries tr =
     (if docs = [] then (Inl (ValueError (py ''No documents provided for summarization'')), tr)
      else
        let docs' = filter (\<lambda>d. strip (page_content d) \<noteq> []) docs
        in if docs' = [] then (Inl (ValueError (py ''All documents are empty'')), tr)
           else
             let content_type = detect_content_type docs';
                 tr1 = logger INFO (py ''Detected content type: '' @ content_type_str content_type) tr;
                 total_text = join (py '' '') (map page_content docs');
                 total_tokens = estimate_tokens total_text;
                 tr2 = logger INFO (py ''Estimated tokens: '' @ str_int total_tokens) tr1;
                 prompts = create_enhanced_prompts content_type
             in retry_loop E docs' content_type total_tokens prompts max_retries 0 tr2)"

section \<open>Summary quality check\<close>



section \<open>Notions used in the statements\<close>

text \<open>
  The float expression of \<open>estimate_tokens\<close> for a word count \<open>w\<close> and a character count
  \<open>c\<close>.
\<close>

definition float_estimate :: "int \<Rightarrow> int \<Rightarrow> rat" where
  "float_estimate w c = float_div (float_add (float_mul (float_of_int w) (float_round (13 / 10)))
                                 (float_div (float_of_int c) (float_round (35 / 10))))
                      (float_of_int 2)"


text \<open>
  The line \<open>logger.warning(f"Attempt {attempt + 1} failed: {e}")\<close> writes, and a run of
  failed attempts: \<open>failed_attempts body attempt tr es tr'\<close> holds when running \<open>body\<close>
  again and again from the trace \<open>tr\<close>, numbering the attempts from \<open>attempt\<close>, fails with
  the exceptions \<open>es\<close> in this order, each failure logged, and ends in the trace \<open>tr'\<close>.
\<close>

definition warning_line :: "int \<Rightarrow> exn \<Rightarrow> level \<times> pystr" where
  "warning_line attempt e = (WARNING, py ''Attempt '' @ str_int (attempt + 1) @ py '' failed: '' @ exn_str e)"

fun failed_attempts ::
  "(trace \<Rightarrow> (exn + pystr) \<times> trace) \<Rightarrow> int \<Rightarrow> trace \<Rightarrow> exn list \<Rightarrow> trace \<Rightarrow> bool" where
  "failed_attempts body attempt tr [] tr' \<longleftrightarrow> tr' = tr"
| "failed_attempts body attempt tr (e # es) tr' \<longleftrightarrow>
     fst (body tr) = Inl e \<and>
     failed_attempts body (attempt + 1)
       ((snd (body tr))\<lparr>log_lines := log_lines (snd (body tr)) @ [warning_line attempt e]\<rparr>) es tr'"



definition summarize_prologue :: "doc list \<Rightarrow> trace \<Rightarrow> trace" where
  "summarize_prologue docs tr =
     (let docs' = filter (\<lambda>d. strip (page_content d) \<noteq> []) docs
      in logger INFO (py ''Estimated tokens: '' @
                      str_int (estimate_tokens (join (py '' '') (map page_content docs'))))
           (logger INFO (py ''Detected content type: '' @
                         content_type_str (detect_content_type docs')) tr))"

lemma dropWhile_noop: "xs = [] \<or> \<not> P (hd xs) \<Longrightarrow> dropWhile P xs = xs"
  by (cases xs) auto

lemma strip_head: "strip s = [] \<or> \<not> is_space (hd (strip s))"
proof -
  define u where "u = dropWhile is_space s"
  have u: "u = [] \<or> \<not> is_space (hd u)"
    unfolding u_def using hd_dropWhile[of is_space s] by blast
  have "rev u = takeWhile is_space (rev u) @ dropWhile is_space (rev u)" by simp
  then have "u = rev (dropWhile is_space (rev u)) @ rev (takeWhile is_space (rev u))"
    by (metis rev_append rev_rev_ident)
  then have split: "u = strip s @ rev (takeWhile is_space (rev u))"
    by (simp add: strip_def u_def)
  show ?thesis
  proof (cases "strip s")
    case Nil
    then show ?thesis by simp
  next
    case (Cons c cs)
    with split have "hd u = c" "u \<noteq> []" by (metis hd_append2 list.sel(1) list.distinct(1), auto)
    with u Cons show ?thesis by simp
  qed
qed

lemma strip_last: "dropWhile is_space (rev (strip s)) = rev (strip s)"
  by (simp add: strip_def dropWhile_idem)

lemma strip_strip: "strip (strip s) = strip s"
proof -
  have "dropWhile is_space (strip s) = strip s"
    using strip_head[of s] by (rule dropWhile_noop)
  then have "strip (strip s) = rev (dropWhile is_space (rev (strip s)))"
    by (simp add: strip_def[of "strip s"])
  then show ?thesis by (simp add: strip_last)
qed

lemma starts_with_iff: "starts_with needle hay \<longleftrightarrow> (\<exists>post. hay = needle @ post)"
  by (induction needle hay rule: starts_with.induct) auto

lemma contains_iff: "contains needle hay \<longleftrightarrow> (\<exists>pre post. hay = pre @ needle @ post)"
proof (induction hay)
  case Nil
  then show ?case by auto
next
  case (Cons c cs)
  show ?case
  proof
    assume "contains needle (c # cs)"
    then consider "starts_with needle (c # cs)" | "contains needle cs" by auto
    then show "\<exists>pre post. c # cs = pre @ needle @ post"
    proof cases
      case 1
      then obtain post where "c # cs = needle @ post" by (auto simp: starts_with_iff)
      then have "c # cs = [] @ needle @ post" by simp
      then show ?thesis by blast
    next
      case 2
      then obtain pre post where "cs = pre @ needle @ post" using Cons.IH by blast
      then have "c # cs = (c # pre) @ needle @ post" by simp
      then show ?thesis by blast
    qed
  next
    assume "\<exists>pre post. c # cs = pre @ needle @ post"
    then obtain pre post where eq: "c # cs = pre @ needle @ post" by blast
    show "contains needle (c # cs)"
    proof (cases pre)
      case Nil
      with eq have "starts_with needle (c # cs)" by (auto simp: starts_with_iff)
      then show ?thesis by simp
    next
      case (Cons p ps)
      with eq have "cs = ps @ needle @ post" by simp
      then have "contains needle cs" using Cons.IH by blast
      then show ?thesis by simp
    qed
  qed
qed

lemma distinct_technical_indicators: "distinct technical_indicators"
  by (simp add: technical_indicators_def py_def)

lemma distinct_narrative_indicators: "distinct narrative_indicators"
  by (simp add: narrative_indicators_def py_def)

lemma score_card:
  "distinct ks \<Longrightarrow> score ks text = card {k \<in> set ks. \<exists>pre post. text = pre @ k @ post}"
proof -
  assume d: "distinct ks"
  have "{k. contains k text} \<inter> set ks = {k \<in> set ks. \<exists>pre post. text = pre @ k @ post}"
    by (auto simp: contains_iff)
  then show ?thesis
    unfolding score_def using distinct_length_filter[OF d, of "\<lambda>k. contains k text"] by simp
qed

lemma rhe_cases:
  "round_half_even x = \<lfloor>x\<rfloor> \<or> round_half_even x = \<lfloor>x\<rfloor> + 1"
  by (simp add: round_half_even_def Let_def)

lemma rhe_of_int: "round_half_even (of_int n) = n"
  by (simp add: round_half_even_def Let_def)

lemma rhe_ge_floor: "\<lfloor>x\<rfloor> \<le> round_half_even x"
  using rhe_cases[of x] by linarith

lemma rhe_le_ceiling: "round_half_even x \<le> \<lceil>x\<rceil>"
proof (cases "x = of_int \<lfloor>x\<rfloor>")
  case True
  then have "round_half_even x = \<lfloor>x\<rfloor>" by (metis rhe_of_int)
  then show ?thesis by linarith
next
  case False
  then have "\<lceil>x\<rceil> = \<lfloor>x\<rfloor> + 1" by (simp add: ceiling_altdef)
  then show ?thesis using rhe_cases[of x] by linarith
qed

lemma rhe_ge_int: "of_int n \<le> x \<Longrightarrow> n \<le> round_half_even x"
proof -
  assume "of_int n \<le> x"
  then have "n \<le> \<lfloor>x\<rfloor>" by (simp add: le_floor_iff)
  then show ?thesis using rhe_ge_floor[of x] by linarith
qed

lemma rhe_le_int: "x \<le> of_int n \<Longrightarrow> round_half_even x \<le> n"
proof -
  assume "x \<le> of_int n"
  then have "\<lceil>x\<rceil> \<le> n" by (simp add: ceiling_le_iff)
  then show ?thesis using rhe_le_ceiling[of x] by linarith
qed

lemma rhe_err: "\<bar>of_int (round_half_even x) - x\<bar> \<le> 1 / 2"
proof -
  have "of_int \<lfloor>x\<rfloor> \<le> x" "x < of_int \<lfloor>x\<rfloor> + 1" by linarith+
  then show ?thesis
    by (auto simp: round_half_even_def Let_def abs_le_iff)
qed

lemma rhe_mono: "x \<le> y \<Longrightarrow> round_half_even x \<le> round_half_even y"
proof -
  assume xy: "x \<le> y"
  then have fl: "\<lfloor>x\<rfloor> \<le> \<lfloor>y\<rfloor>" by (rule floor_mono)
  show ?thesis
  proof (cases "\<lfloor>x\<rfloor> = \<lfloor>y\<rfloor>")
    case True
    then have "x - of_int \<lfloor>x\<rfloor> \<le> y - of_int \<lfloor>y\<rfloor>" using xy by simp
    then show ?thesis using True
      by (auto simp: round_half_even_def Let_def)
  next
    case False
    with fl have "\<lfloor>x\<rfloor> + 1 \<le> \<lfloor>y\<rfloor>" by simp
    then show ?thesis using rhe_cases[of x] rhe_ge_floor[of y] by linarith
  qed
qed

lemma float_exponent_ge: "- 1022 \<le> float_exponent x"
  by (simp add: float_exponent_def)

lemma float_exponent_upper:
  assumes "0 < x"
  shows "x < 2 powi (float_exponent x + 1)"
proof -
  define K where "K = (1074::nat)"
  define y where "y = \<lfloor>x * 2 ^ K\<rfloor>"
  define bl where "bl = bitlen y"
  have fe: "float_exponent x = max (bl - (int K + 1)) (- 1022)"
    by (simp add: float_exponent_def K_def y_def bl_def)
  have bl0: "0 \<le> bl" by (simp add: bl_def bitlen_nonneg)
  have "y < 2 ^ nat bl"
    using bitlen_le_iff_power[of y bl] bl0 by (simp add: bl_def)
  then have "y + 1 \<le> 2 ^ nat bl" by simp
  then have "(of_int (y + 1) :: rat) \<le> of_int (2 ^ nat bl)" by (simp only: of_int_le_iff)
  moreover have "x * 2 ^ K < of_int (y + 1)" unfolding y_def by linarith
  ultimately have "x * 2 ^ K < 2 ^ nat bl" by simp
  then have "x < 2 ^ nat bl / 2 ^ K" by (simp add: pos_less_divide_eq)
  also have "(2::rat) ^ nat bl / 2 ^ K = 2 powi (bl - int K)"
  proof -
    have a: "(2::rat) powi bl = 2 ^ nat bl" using bl0 by (simp add: power_int_def)
    have "(2::rat) powi (bl - int K) = 2 powi bl / 2 powi (int K)"
      by (rule power_int_diff) simp
    then show ?thesis using a by simp
  qed
  also have "\<dots> \<le> 2 powi (float_exponent x + 1)"
    by (rule power_int_increasing) (simp_all add: fe)
  finally show ?thesis .
qed

lemma float_exponent_lower:
  assumes "- 1022 < float_exponent x"
  shows "2 powi (float_exponent x) \<le> x"
proof -
  define K where "K = (1074::nat)"
  define y where "y = \<lfloor>x * 2 ^ K\<rfloor>"
  define bl where "bl = bitlen y"
  have fe: "float_exponent x = max (bl - (int K + 1)) (- 1022)"
    by (simp add: float_exponent_def K_def y_def bl_def)
  with assms have e: "float_exponent x = bl - (int K + 1)" and big: "int K + 1 - 1022 < bl"
    by linarith+
  then have bl1: "1 \<le> bl" by (simp add: K_def)
  then have "0 < y" using bitlen_def bl_def
    by (metis bitlen_nonneg bl_def floorlog_def nat_0_iff not_less not_one_le_zero of_nat_0 order_antisym zero_less_nat_eq)
  then have "2 ^ nat (bl - 1) \<le> y" using bitlen_bounds[of y] by (simp add: bl_def)
  then have "(of_int (2 ^ nat (bl - 1)) :: rat) \<le> of_int y" by (simp only: of_int_le_iff)
  then have "(2::rat) ^ nat (bl - 1) \<le> of_int y" by simp
  moreover have "of_int y \<le> x * 2 ^ K" unfolding y_def by linarith
  ultimately have "2 ^ nat (bl - 1) \<le> x * 2 ^ K" by (rule order_trans)
  then have "2 ^ nat (bl - 1) / 2 ^ K \<le> x" by (simp add: pos_divide_le_eq)
  moreover have "(2::rat) ^ nat (bl - 1) / 2 ^ K = 2 powi (bl - 1 - int K)"
  proof -
    have a: "(2::rat) powi (bl - 1) = 2 ^ nat (bl - 1)" using bl1 by (simp add: power_int_def)
    have "(2::rat) powi (bl - 1 - int K) = 2 powi (bl - 1) / 2 powi (int K)"
      by (rule power_int_diff) simp
    then show ?thesis using a by simp
  qed
  ultimately have "2 powi (bl - 1 - int K) \<le> x" by simp
  moreover have "bl - 1 - int K = float_exponent x" using e by simp
  ultimately show ?thesis by simp
qed

lemma float_exponent_le:
  assumes "x < 2 powi (e + 1)" and "- 1022 \<le> e"
  shows "float_exponent x \<le> e"
proof (rule ccontr)
  assume "\<not> float_exponent x \<le> e"
  then have gt: "e + 1 \<le> float_exponent x" by simp
  with assms(2) have "2 powi (float_exponent x) \<le> x"
    by (intro float_exponent_lower) simp
  moreover have "(2::rat) powi (e + 1) \<le> 2 powi (float_exponent x)"
    using gt by (intro power_int_increasing) simp_all
  ultimately show False using assms(1) by simp
qed

lemma float_exponent_ge_if:
  assumes "0 < x" and "2 powi e \<le> x"
  shows "e \<le> float_exponent x"
proof (rule ccontr)
  assume "\<not> e \<le> float_exponent x"
  then have lt: "float_exponent x + 1 \<le> e" by simp
  have "x < 2 powi (float_exponent x + 1)" using assms(1) by (rule float_exponent_upper)
  also have "\<dots> \<le> 2 powi e" using lt by (intro power_int_increasing) simp_all
  finally show False using assms(2) by simp
qed

lemma float_exponent_eq:
  assumes "2 powi e \<le> x" and "x < 2 powi (e + 1)" and "- 1022 \<le> e"
  shows "float_exponent x = e"
proof -
  have "0 < (2::rat) powi e" by simp
  with assms(1) have "0 < x" by linarith
  with assms show ?thesis
    using float_exponent_le[of x e] float_exponent_ge_if[of x e] by simp
qed

lemma float_exponent_mono:
  assumes "0 < x" and "x \<le> y"
  shows "float_exponent x \<le> float_exponent y"
proof (cases "- 1022 < float_exponent x")
  case True
  then have "2 powi (float_exponent x) \<le> x" by (rule float_exponent_lower)
  with assms show ?thesis by (intro float_exponent_ge_if) simp_all
next
  case False
  then show ?thesis using float_exponent_ge[of x] float_exponent_ge[of y] by simp
qed

lemma float_round_pos:
  "0 < x \<Longrightarrow> float_round x =
     of_int (round_half_even (x / 2 powi (float_exponent x - 52))) * 2 powi (float_exponent x - 52)"
  by (simp add: float_round_def Let_def)

lemma pow2_pos: "0 < (2::rat) powi e"
  by simp

lemma pow2_add: "(2::rat) powi a * 2 powi b = 2 powi (a + b)"
  by (simp add: power_int_add)

lemma scale53: "(of_int (2 ^ 53) :: rat) * 2 powi (e - 52) = 2 powi (e + 1)"
proof -
  have "(of_int (2 ^ 53) :: rat) = 2 powi 53" by simp
  then have "(of_int (2 ^ 53) :: rat) * 2 powi (e - 52) = 2 powi 53 * 2 powi (e - 52)" by (simp only:)
  also have "\<dots> = 2 powi (53 + (e - 52))" by (rule pow2_add)
  also have "53 + (e - 52) = e + 1" by simp
  finally show ?thesis .
qed

lemma scale52: "(of_int (2 ^ 52) :: rat) * 2 powi (e - 52) = 2 powi e"
proof -
  have "(of_int (2 ^ 52) :: rat) = 2 powi 52" by simp
  then have "(of_int (2 ^ 52) :: rat) * 2 powi (e - 52) = 2 powi 52 * 2 powi (e - 52)" by (simp only:)
  also have "\<dots> = 2 powi (52 + (e - 52))" by (rule pow2_add)
  also have "52 + (e - 52) = e" by simp
  finally show ?thesis .
qed

lemma half_pow2: "1 / 2 * (2::rat) powi (e - 52) = 2 powi (e - 53)"
proof -
  have "e - 52 = 1 + (e - 53)" by simp
  then have "(2::rat) powi (e - 52) = 2 powi (1 + (e - 53))" by (simp only:)
  also have "\<dots> = 2 powi 1 * 2 powi (e - 53)" by (rule pow2_add[symmetric])
  finally have "(2::rat) powi (e - 52) = 2 * 2 powi (e - 53)" by simp
  then show ?thesis by simp
qed

lemma float_round_nonneg: "0 \<le> x \<Longrightarrow> 0 \<le> float_round x"
proof (cases "x = 0")
  case True
  then show ?thesis by (simp add: float_round_def)
next
  case False
  assume "0 \<le> x"
  with False have x: "0 < x" by simp
  define q where "q = (2::rat) powi (float_exponent x - 52)"
  have q: "0 < q" unfolding q_def by (rule pow2_pos)
  have "(of_int 0 :: rat) \<le> x / q" using x q by simp
  then have "0 \<le> round_half_even (x / q)" by (rule rhe_ge_int)
  then have "0 \<le> (of_int (round_half_even (x / q)) :: rat) * q" using q by simp
  then show ?thesis using float_round_pos[OF x] by (simp add: q_def)
qed

lemma float_round_err_exponent:
  assumes "0 < x"
  shows "\<bar>float_round x - x\<bar> \<le> 2 powi (float_exponent x - 53)"
proof -
  define q where "q = (2::rat) powi (float_exponent x - 52)"
  define r where "r = (of_int (round_half_even (x / q)) :: rat)"
  have q: "0 < q" unfolding q_def by (rule pow2_pos)
  have fr: "float_round x = r * q"
    unfolding q_def r_def by (rule float_round_pos[OF assms])
  have "\<bar>r - x / q\<bar> \<le> 1 / 2" unfolding r_def by (rule rhe_err)
  then have e1: "\<bar>r - x / q\<bar> * q \<le> 1 / 2 * q"
    using q by (intro mult_right_mono) simp_all
  have "\<bar>r - x / q\<bar> * q = \<bar>(r - x / q) * q\<bar>"
    using q by (simp add: abs_mult)
  also have "(r - x / q) * q = r * q - x"
    using q by (simp add: algebra_simps)
  finally have e2: "\<bar>r - x / q\<bar> * q = \<bar>r * q - x\<bar>" .
  have e3: "1 / 2 * q = 2 powi (float_exponent x - 53)"
    unfolding q_def by (rule half_pow2)
  from e1 e2 e3 have "\<bar>r * q - x\<bar> \<le> 2 powi (float_exponent x - 53)" by linarith
  then show ?thesis by (simp only: fr)
qed

lemma float_round_err:
  assumes "0 \<le> x" and "x < 2 powi (e + 1)" and "- 1022 \<le> e"
  shows "\<bar>float_round x - x\<bar> \<le> 2 powi (e - 53)"
proof (cases "x = 0")
  case True
  then show ?thesis using pow2_pos[of "e - 53"] by (simp add: float_round_def)
next
  case False
  with assms(1) have x: "0 < x" by simp
  have "float_exponent x \<le> e" using assms(2,3) by (rule float_exponent_le)
  then have "(2::rat) powi (float_exponent x - 53) \<le> 2 powi (e - 53)"
    by (intro power_int_increasing) simp_all
  with float_round_err_exponent[OF x] show ?thesis by linarith
qed

lemma float_round_le_next_binade:
  assumes "0 < x"
  shows "float_round x \<le> 2 powi (float_exponent x + 1)"
proof -
  define q where "q = (2::rat) powi (float_exponent x - 52)"
  define M where "M = (2::int) ^ 53"
  have q: "0 < q" unfolding q_def by (rule pow2_pos)
  have split: "(of_int M :: rat) * q = 2 powi (float_exponent x + 1)"
    unfolding M_def q_def by (rule scale53)
  have "x < of_int M * q" using float_exponent_upper[OF assms] split by simp
  then have "x / q < of_int M" using q by (simp add: pos_divide_less_eq)
  then have "x / q \<le> of_int M" by simp
  then have "round_half_even (x / q) \<le> M" by (rule rhe_le_int)
  then have "(of_int (round_half_even (x / q)) :: rat) \<le> of_int M"
    by (simp only: of_int_le_iff)
  then have "(of_int (round_half_even (x / q)) :: rat) * q \<le> of_int M * q"
    using q by (intro mult_right_mono) simp_all
  then have "(of_int (round_half_even (x / q)) :: rat) * q \<le> 2 powi (float_exponent x + 1)"
    using split by simp
  then show ?thesis using float_round_pos[OF assms] by (simp add: q_def)
qed

lemma float_round_ge_binade:
  assumes "0 < x" and "- 1022 < float_exponent x"
  shows "2 powi (float_exponent x) \<le> float_round x"
proof -
  define q where "q = (2::rat) powi (float_exponent x - 52)"
  define M where "M = (2::int) ^ 52"
  have q: "0 < q" unfolding q_def by (rule pow2_pos)
  have split: "(of_int M :: rat) * q = 2 powi (float_exponent x)"
    unfolding M_def q_def by (rule scale52)
  have "of_int M * q \<le> x" using float_exponent_lower[OF assms(2)] split by simp
  then have "of_int M \<le> x / q" using q by (simp add: pos_le_divide_eq)
  then have "M \<le> round_half_even (x / q)" by (rule rhe_ge_int)
  then have "(of_int M :: rat) \<le> of_int (round_half_even (x / q))"
    by (simp only: of_int_le_iff)
  then have "(of_int M :: rat) * q \<le> of_int (round_half_even (x / q)) * q"
    using q by (intro mult_right_mono) simp_all
  then have "2 powi (float_exponent x) \<le> (of_int (round_half_even (x / q)) :: rat) * q"
    using split by simp
  then show ?thesis using float_round_pos[OF assms(1)] by (simp add: q_def)
qed

lemma float_round_mono:
  assumes "0 \<le> x" and "x \<le> y"
  shows "float_round x \<le> float_round y"
proof (cases "x = 0")
  case True
  then show ?thesis using float_round_nonneg[of y] assms by (simp add: float_round_def)
next
  case False
  with assms have x: "0 < x" and y: "0 < y" by simp_all
  have le: "float_exponent x \<le> float_exponent y" using x assms(2) by (rule float_exponent_mono)
  show ?thesis
  proof (cases "float_exponent x = float_exponent y")
    case True
    define q where "q = (2::rat) powi (float_exponent x - 52)"
    have q: "0 < q" unfolding q_def by (rule pow2_pos)
    have "x / q \<le> y / q" using assms(2) q by (simp add: divide_right_mono)
    then have "round_half_even (x / q) \<le> round_half_even (y / q)" by (rule rhe_mono)
    then have "(of_int (round_half_even (x / q)) :: rat) \<le> of_int (round_half_even (y / q))"
      by (simp only: of_int_le_iff)
    then have "(of_int (round_half_even (x / q)) :: rat) * q \<le> of_int (round_half_even (y / q)) * q"
      using q by (intro mult_right_mono) simp_all
    then show ?thesis using float_round_pos[OF x] float_round_pos[OF y] True by (simp add: q_def)
  next
    case False
    with le have lt: "float_exponent x + 1 \<le> float_exponent y" by simp
    then have "- 1022 < float_exponent y" using float_exponent_ge[of x] by linarith
    then have "2 powi (float_exponent y) \<le> float_round y" using y by (intro float_round_ge_binade)
    moreover have "(2::rat) powi (float_exponent x + 1) \<le> 2 powi (float_exponent y)"
      using lt by (intro power_int_increasing) simp_all
    moreover note float_round_le_next_binade[OF x]
    ultimately show ?thesis by linarith
  qed
qed

lemma grid_unit:
  assumes "e \<le> 52"
  shows "(of_int (2 ^ nat (52 - e)) :: rat) * 2 powi (e - 52) = 1"
proof -
  have g: "(of_int (2 ^ k) :: rat) = 2 powi (int k)" for k by simp
  have "(of_int (2 ^ nat (52 - e)) :: rat) = 2 powi (int (nat (52 - e)))" by (rule g)
  also have "int (nat (52 - e)) = 52 - e" using assms by simp
  finally have "(of_int (2 ^ nat (52 - e)) :: rat) * 2 powi (e - 52) = 2 powi (52 - e) * 2 powi (e - 52)"
    by (simp only:)
  also have "\<dots> = 2 powi ((52 - e) + (e - 52))" by (rule pow2_add)
  also have "(52 - e) + (e - 52) = 0" by simp
  finally show ?thesis by simp
qed

lemma float_round_ge_int:
  assumes "0 \<le> n" and "n \<le> 2 ^ 53" and "of_int n \<le> x"
  shows "of_int n \<le> float_round x"
proof (cases "n = 0")
  case True
  then show ?thesis using assms(3) float_round_nonneg[of x] by simp
next
  case False
  with assms(1) have "0 < n" by simp
  then have "(0::rat) < of_int n" by simp
  with assms(3) have x: "0 < x" by linarith
  define e where "e = float_exponent x"
  define q where "q = (2::rat) powi (e - 52)"
  define r where "r = (of_int (round_half_even (x / q)) :: rat)"
  have q: "0 < q" unfolding q_def by (rule pow2_pos)
  have fr: "float_round x = r * q"
    unfolding q_def r_def e_def by (rule float_round_pos[OF x])
  show ?thesis
  proof (cases "e \<le> 52")
    case True
    define M where "M = (2::int) ^ nat (52 - e)"
    have unit: "(of_int M :: rat) * q = 1" unfolding M_def q_def using True by (rule grid_unit)
    then have inv: "1 / q = of_int M" using q by (simp add: field_simps)
    have "x / q = x * (1 / q)" by simp
    then have xq: "x / q = x * of_int M" by (simp only: inv)
    have "0 < M" unfolding M_def by simp
    then have "(0::rat) \<le> of_int M" by simp
    then have "of_int n * (of_int M :: rat) \<le> x * of_int M"
      using assms(3) by (rule mult_right_mono[rotated])
    then have "(of_int (n * M) :: rat) \<le> x / q" by (simp add: xq)
    then have "n * M \<le> round_half_even (x / q)" by (rule rhe_ge_int)
    then have "(of_int (n * M) :: rat) \<le> r" unfolding r_def by (simp only: of_int_le_iff)
    then have "(of_int (n * M) :: rat) * q \<le> r * q" using q by (intro mult_right_mono) simp_all
    moreover have "(of_int (n * M) :: rat) * q = of_int n * (of_int M * q)" by simp
    ultimately have "of_int n \<le> r * q" by (simp only: unit mult_1_right)
    then show ?thesis by (simp only: fr)
  next
    case False
    then have big: "53 \<le> e" by simp
    then have "- 1022 < float_exponent x" by (simp add: e_def)
    then have "2 powi e \<le> float_round x" unfolding e_def using x by (intro float_round_ge_binade)
    moreover have "(2::rat) powi 53 \<le> 2 powi e" using big by (intro power_int_increasing) simp_all
    moreover have "(of_int n :: rat) \<le> of_int (2 ^ 53)" using assms(2) by (simp only: of_int_le_iff)
    moreover have "(of_int (2 ^ 53) :: rat) = 2 powi 53" by simp
    ultimately show ?thesis by linarith
  qed
qed

lemma float_round_le_int:
  assumes "0 < x" and "x \<le> of_int n" and "n < 2 ^ 53"
  shows "float_round x \<le> of_int n"
proof -
  define e where "e = float_exponent x"
  define q where "q = (2::rat) powi (e - 52)"
  define r where "r = (of_int (round_half_even (x / q)) :: rat)"
  have q: "0 < q" unfolding q_def by (rule pow2_pos)
  have fr: "float_round x = r * q"
    unfolding q_def r_def e_def by (rule float_round_pos[OF assms(1)])
  have "(of_int n :: rat) < of_int (2 ^ 53)" using assms(3) by (simp only: of_int_less_iff)
  moreover have "(of_int (2 ^ 53) :: rat) = 2 powi (52 + 1)" by simp
  ultimately have "x < 2 powi (52 + 1)" using assms(2) by linarith
  then have True: "e \<le> 52" unfolding e_def by (rule float_exponent_le) simp
  define M where "M = (2::int) ^ nat (52 - e)"
  have unit: "(of_int M :: rat) * q = 1" unfolding M_def q_def using True by (rule grid_unit)
  then have inv: "1 / q = of_int M" using q by (simp add: field_simps)
  have "x / q = x * (1 / q)" by simp
  then have xq: "x / q = x * of_int M" by (simp only: inv)
  have "0 < M" unfolding M_def by simp
  then have "(0::rat) \<le> of_int M" by simp
  then have "x * (of_int M :: rat) \<le> of_int n * of_int M"
    using assms(2) by (rule mult_right_mono[rotated])
  then have "x / q \<le> (of_int (n * M) :: rat)" by (simp add: xq)
  then have "round_half_even (x / q) \<le> n * M" by (rule rhe_le_int)
  then have "r \<le> (of_int (n * M) :: rat)" unfolding r_def by (simp only: of_int_le_iff)
  then have "r * q \<le> (of_int (n * M) :: rat) * q" using q by (intro mult_right_mono) simp_all
  moreover have "(of_int (n * M) :: rat) * q = of_int n * (of_int M * q)" by simp
  ultimately have "r * q \<le> of_int n" by (simp only: unit mult_1_right)
  then show ?thesis by (simp only: fr)
qed

lemma float_round_int:
  assumes "0 \<le> n" and "n < 2 ^ 53"
  shows "float_round (of_int n) = of_int n"
proof (cases "n = 0")
  case True
  then show ?thesis by (simp add: float_round_def)
next
  case False
  with assms(1) have "(0::rat) < of_int n" by simp
  then have "float_round (of_int n) \<le> of_int n"
    using assms(2) by (intro float_round_le_int) simp_all
  moreover have "of_int n \<le> float_round (of_int n)"
    using assms by (intro float_round_ge_int) simp_all
  ultimately show ?thesis by simp
qed

lemma float_literal_1_3: "float_round (13 / 10) = 5854679515581645 / 4503599627370496"
proof -
  have e: "float_exponent (13 / 10) = 0"
    by (rule float_exponent_eq) simp_all
  have fl: "\<lfloor>(29273397577908224::rat) / 5\<rfloor> = 5854679515581644"
    by (rule floor_unique) simp_all
  have "(13 / 10 :: rat) / 2 powi (0 - 52) = 29273397577908224 / 5"
    by (simp add: power_int_minus)
  moreover have "round_half_even (29273397577908224 / 5) = 5854679515581645"
    by (simp add: round_half_even_def Let_def fl)
  ultimately have "round_half_even ((13 / 10) / 2 powi (0 - 52)) = 5854679515581645"
    by (simp only:)
  then show ?thesis
    using float_round_pos[of "13 / 10"] by (simp add: e power_int_minus)
qed

lemma float_round_7_2: "float_round (7 / 2) = 7 / 2"
proof -
  have e: "float_exponent (7 / 2) = 1"
    by (rule float_exponent_eq) simp_all
  have "(7 / 2 :: rat) / 2 powi (1 - 52) = of_int 7881299347898368"
    by (simp add: power_int_minus)
  then have "round_half_even ((7 / 2) / 2 powi (1 - 52)) = 7881299347898368"
    by (simp only: rhe_of_int)
  then have "round_half_even ((7 / 2) / 2 powi (float_exponent (7 / 2) - 52)) = 7881299347898368"
    by (simp only: e)
  moreover have "float_round (7 / 2) =
     of_int (round_half_even ((7 / 2) / 2 powi (float_exponent (7 / 2) - 52))) *
       2 powi (float_exponent (7 / 2) - 52)"
    by (rule float_round_pos) simp
  ultimately have "float_round (7 / 2) = of_int 7881299347898368 * 2 powi (1 - 52)"
    by (simp only: e)
  then show ?thesis by (simp add: power_int_minus)
qed

lemma float_literal_3_5: "float_round (35 / 10) = 7 / 2"
  using float_round_7_2 by simp

lemma float_of_int_exact: "0 \<le> n \<Longrightarrow> n < 2 ^ 53 \<Longrightarrow> float_of_int n = of_int n"
  unfolding float_of_int_def by (rule float_round_int)

lemma float_round_err_41:
  assumes "0 \<le> x" and "x < 2199023255552"
  shows "\<bar>float_round x - x\<bar> \<le> 1 / 8192"
proof -
  have "x < 2 powi (40 + 1)" using assms(2) by simp
  with assms(1) have "\<bar>float_round x - x\<bar> \<le> 2 powi (40 - 53)"
    by (rule float_round_err) simp
  moreover have "(2::rat) powi (40 - 53) = 1 / 8192" by simp
  ultimately show ?thesis by simp
qed

lemma float_round_err_42:
  assumes "0 \<le> x" and "x < 4398046511104"
  shows "\<bar>float_round x - x\<bar> \<le> 1 / 4096"
proof -
  have "x < 2 powi (41 + 1)" using assms(2) by simp
  with assms(1) have "\<bar>float_round x - x\<bar> \<le> 2 powi (41 - 53)"
    by (rule float_round_err) simp
  moreover have "(2::rat) powi (41 - 53) = 1 / 4096" by simp
  ultimately show ?thesis by simp
qed

lemma estimate_core:
  fixes w c :: int
  assumes w0: "0 \<le> w" and wc: "w \<le> c" and c0: "0 < c" and cb: "c < 2 ^ 40"
  shows "int_of_float
           (float_div (float_add (float_mul (float_of_int w) (float_round (13 / 10)))
                                 (float_div (float_of_int c) (float_round (35 / 10))))
                      (float_of_int 2)) = (91 * w + 20 * c) div 140"
proof -
  define W where "W = (of_int w :: rat)"
  define C where "C = (of_int c :: rat)"
  define C13 where "C13 = (5854679515581645 / 4503599627370496 :: rat)"
  define p where "p = W * C13"
  define d where "d = C / (7 / 2)"
  define a where "a = float_round p"
  define b where "b = float_round d"
  define s where "s = float_round (a + b)"
  define r where "r = float_round (s / 2)"
  define k where "k = (91 * w + 20 * c) div 140"
  define rm where "rm = (91 * w + 20 * c) mod 140"
  define T where "T = (13 * W / 10 + 2 * C / 7) / 2"
  have W0: "0 \<le> W" and WC: "W \<le> C" and C0: "0 < C" and CB: "C < 1099511627776"
    using w0 wc c0 cb unfolding W_def C_def by simp_all
  have fw: "float_of_int w = W" unfolding W_def using w0 wc cb by (intro float_of_int_exact) simp_all
  have fc: "float_of_int c = C" unfolding C_def using c0 cb by (intro float_of_int_exact) simp_all
  have f2: "float_of_int 2 = 2" using float_of_int_exact[of 2] by simp
  have val_eq: "float_div (float_add (float_mul (float_of_int w) (float_round (13 / 10)))
                                 (float_div (float_of_int c) (float_round (35 / 10))))
                      (float_of_int 2) = r"
    unfolding float_div_def float_add_def float_mul_def fw fc f2 float_literal_1_3 float_literal_3_5
      r_def s_def a_def b_def p_def d_def C13_def ..
  \<comment> \<open>error analysis\<close>
  have p_lo: "13 * W / 10 \<le> p" unfolding p_def C13_def using W0 by (simp add: field_simps)
  have p_hi: "p \<le> 13 * W / 10 + W / 22517998136852480"
    unfolding p_def C13_def using W0 by (simp add: field_simps)
  have p0: "0 \<le> p" using p_lo W0 by linarith
  have pb: "p < 2199023255552" using p_hi WC CB W0 by linarith
  have ea: "\<bar>a - p\<bar> \<le> 1 / 8192" unfolding a_def using p0 pb by (rule float_round_err_41)
  have d0: "0 \<le> d" unfolding d_def using C0 by simp
  have d_eq: "d = 2 * C / 7" unfolding d_def by simp
  have db: "d < 2199023255552" using d_eq CB by linarith
  have eb: "\<bar>b - d\<bar> \<le> 1 / 8192" unfolding b_def using d0 db by (rule float_round_err_41)
  have a0: "0 \<le> a" unfolding a_def using p0 by (rule float_round_nonneg)
  have b0: "0 \<le> b" unfolding b_def using d0 by (rule float_round_nonneg)
  have ab0: "0 \<le> a + b" using a0 b0 by simp
  have abt: "a + b < 2000000000000" using ea eb p_hi d_eq WC CB W0 by linarith
  then have abb: "a + b < 4398046511104" by linarith
  have es: "\<bar>s - (a + b)\<bar> \<le> 1 / 4096" unfolding s_def using ab0 abb by (rule float_round_err_42)
  have s0: "0 \<le> s" unfolding s_def using ab0 by (rule float_round_nonneg)
  have h0: "0 \<le> s / 2" using s0 by simp
  have sb: "s / 2 < 2199023255552" using es abt by linarith
  have er: "\<bar>r - s / 2\<bar> \<le> 1 / 8192" unfolding r_def using h0 sb by (rule float_round_err_41)
  have r0: "0 \<le> r" unfolding r_def using h0 by (rule float_round_nonneg)
  have Wsmall: "W / 22517998136852480 \<le> 1 / 8192" using WC CB by linarith
  define S where "S = 13 * W / 10 + 2 * C / 7"
  have a1: "a \<le> p + 1 / 8192" and a2: "p - 1 / 8192 \<le> a" using ea by linarith+
  have b1: "b \<le> d + 1 / 8192" and b2: "d - 1 / 8192 \<le> b" using eb by linarith+
  have s1: "s \<le> a + b + 1 / 4096" and s2: "a + b - 1 / 4096 \<le> s" using es by linarith+
  have r1: "r \<le> s / 2 + 1 / 8192" and r2: "s / 2 - 1 / 8192 \<le> r" using er by linarith+
  have pd1: "p + d \<le> S + 1 / 8192" unfolding S_def using p_hi d_eq Wsmall by linarith
  have pd2: "S \<le> p + d" unfolding S_def using p_lo d_eq by linarith
  have sS1: "s \<le> S + 5 / 8192" using s1 a1 b1 pd1 by linarith
  have sS2: "S - 4 / 8192 \<le> s" using s2 a2 b2 pd2 by linarith
  have TS: "T = S / 2" unfolding T_def S_def by simp
  have rT1: "r \<le> T + 7 / 16384" using r1 sS1 TS by linarith
  have rT2: "T - 6 / 16384 \<le> r" using r2 sS2 TS by linarith
  have close: "\<bar>r - T\<bar> < 1 / 140" using rT1 rT2 by linarith
  \<comment> \<open>the exact value\<close>
  have N: "91 * w + 20 * c = 140 * k + rm" unfolding k_def rm_def by simp
  have rm: "0 \<le> rm" "rm < 140" unfolding rm_def by simp_all
  have "T = of_int (91 * w + 20 * c) / 140" unfolding T_def W_def C_def by simp
  also have "\<dots> = of_int (140 * k + rm) / 140" by (simp only: N)
  finally have T: "T = of_int k + of_int rm / 140" by simp
  have upper: "r < of_int k + 1"
  proof -
    have "rm \<le> 139" using rm by simp
    then have "(of_int rm :: rat) \<le> 139" by simp
    then show ?thesis using close T by linarith
  qed
  have lower: "of_int k \<le> r"
  proof (cases "rm = 0")
    case False
    then have "1 \<le> rm" using rm by simp
    then have "(1::rat) \<le> of_int rm" by simp
    then show ?thesis using close T by linarith
  next
    case True
    with N have dv: "91 * w + 20 * c = 140 * k" by simp
    define w' where "w' = 11 * (7 * k - c) - 50 * w"
    define c' where "c' = 3 * c - 20 * k + 13 * w"
    have w': "w = 20 * w'" unfolding w'_def using dv by (simp add: algebra_simps)
    have c': "c = 7 * c'" unfolding c'_def using dv by (simp add: algebra_simps)
    have k: "k = 13 * w' + c'" using dv w' c' by simp
    have w'0: "0 \<le> w'" using w0 w' by simp
    have c'0: "0 \<le> c'" using c0 c' by simp
    have "of_int (26 * w') \<le> p" using p_lo unfolding W_def w' by simp
    then have "of_int (26 * w') \<le> a" unfolding a_def
      using w'0 w' wc cb by (intro float_round_ge_int) simp_all
    moreover have "d = of_int (2 * c')" unfolding d_eq C_def c' by simp
    then have "b = of_int (2 * c')" unfolding b_def
      using c'0 c' cb by (simp only:) (intro float_round_int, simp_all)
    ultimately have "of_int (26 * w' + 2 * c') \<le> a + b" by simp
    then have "of_int (26 * w' + 2 * c') \<le> s" unfolding s_def
      using w'0 c'0 w' c' wc cb by (intro float_round_ge_int) simp_all
    then have "of_int (13 * w' + c') \<le> s / 2" by simp
    then have "of_int (13 * w' + c') \<le> r" unfolding r_def
      using w'0 c'0 w' c' wc cb by (intro float_round_ge_int) simp_all
    then show ?thesis by (simp only: k)
  qed
  have "\<lfloor>r\<rfloor> = k" using lower upper by (intro floor_unique) simp_all
  then have "int_of_float r = k" using r0 by (simp add: int_of_float_def)
  then show ?thesis unfolding val_eq k_def .
qed

lemma split_from_length_le:
  "length (split_from cur s) \<le> length s + (if cur = [] then 0 else 1)"
proof (induction s arbitrary: cur)
  case Nil
  then show ?case by simp
next
  case (Cons c s)
  have e: "length (split_from [] s) \<le> length s" using Cons.IH[of "[]"] by simp
  have n: "length (split_from (cur @ [c]) s) \<le> length s + 1" using Cons.IH[of "cur @ [c]"] by simp
  show ?case using e n by simp
qed

lemma split_length_le: "length (split s) \<le> length s"
  using split_from_length_le[of "[]" s] by (simp add: split_def)

lemma split_from_nonempty: "cur \<noteq> [] \<Longrightarrow> split_from cur s \<noteq> []"
  by (induction s arbitrary: cur) auto

lemma split_from_append_mono:
  "length (split_from cur t) \<le> length (split_from cur (t @ s))"
proof (induction t arbitrary: cur)
  case Nil
  show ?case
  proof (cases "cur = []")
    case True
    then show ?thesis by simp
  next
    case False
    then have "split_from cur s \<noteq> []" by (rule split_from_nonempty)
    then have "1 \<le> length (split_from cur s)" by (cases "split_from cur s") simp_all
    with False show ?thesis by simp
  qed
next
  case (Cons c t)
  then show ?case by simp
qed

lemma split_append_mono: "length (split t) \<le> length (split (t @ s))"
  unfolding split_def by (rule split_from_append_mono)

lemma float_of_int_nonneg: "0 \<le> n \<Longrightarrow> 0 \<le> float_of_int n"
  unfolding float_of_int_def by (rule float_round_nonneg) simp

lemma float_of_int_mono: "0 \<le> m \<Longrightarrow> m \<le> n \<Longrightarrow> float_of_int m \<le> float_of_int n"
  unfolding float_of_int_def by (rule float_round_mono) simp_all

lemma float_of_int_2: "float_of_int 2 = 2"
  using float_of_int_exact[of 2] by simp

lemma float_div_2: "float_div x (float_of_int 2) = float_round (x / 2)"
  by (simp add: float_div_def float_of_int_2)

lemma c13_pos: "0 \<le> float_round (13 / 10)"
  by (simp add: float_literal_1_3)

lemma est_nonneg:
  assumes "0 \<le> w" and "0 \<le> c"
  shows "0 \<le> float_estimate w c"
proof -
  have "0 \<le> float_of_int w * float_round (13 / 10)"
    using float_of_int_nonneg[OF assms(1)] c13_pos by simp
  then have a: "0 \<le> float_mul (float_of_int w) (float_round (13 / 10))"
    unfolding float_mul_def by (rule float_round_nonneg)
  have "0 \<le> float_of_int c / float_round (35 / 10)"
    using float_of_int_nonneg[OF assms(2)] by (simp add: float_round_7_2)
  then have b: "0 \<le> float_div (float_of_int c) (float_round (35 / 10))"
    unfolding float_div_def by (rule float_round_nonneg)
  have "0 \<le> float_add (float_mul (float_of_int w) (float_round (13 / 10)))
                        (float_div (float_of_int c) (float_round (35 / 10)))"
    unfolding float_add_def using a b by (intro float_round_nonneg) simp
  then show ?thesis
    unfolding float_estimate_def float_div_2
    by (intro float_round_nonneg) simp
qed

lemma est_mono:
  assumes "0 \<le> w" and "w \<le> w'" and "0 \<le> c" and "c \<le> c'"
  shows "float_estimate w c \<le> float_estimate w' c'"
proof -
  define a where "a = float_mul (float_of_int w) (float_round (13 / 10))"
  define a' where "a' = float_mul (float_of_int w') (float_round (13 / 10))"
  define b where "b = float_div (float_of_int c) (float_round (35 / 10))"
  define b' where "b' = float_div (float_of_int c') (float_round (35 / 10))"
  have fw: "0 \<le> float_of_int w" "float_of_int w \<le> float_of_int w'"
    using assms by (simp_all add: float_of_int_nonneg float_of_int_mono)
  have fc: "0 \<le> float_of_int c" "float_of_int c \<le> float_of_int c'"
    using assms by (simp_all add: float_of_int_nonneg float_of_int_mono)
  have "0 \<le> float_of_int w * float_round (13 / 10)" using fw(1) c13_pos by simp
  moreover have "float_of_int w * float_round (13 / 10) \<le> float_of_int w' * float_round (13 / 10)"
    using fw(2) c13_pos by (rule mult_right_mono)
  ultimately have aa: "a \<le> a'" and a0: "0 \<le> a"
    unfolding a_def a'_def float_mul_def by (simp_all add: float_round_mono float_round_nonneg)
  have "0 \<le> float_of_int c / float_round (35 / 10)" using fc(1) by (simp add: float_round_7_2)
  moreover have "float_of_int c / float_round (35 / 10) \<le> float_of_int c' / float_round (35 / 10)"
    using fc(2) by (simp add: float_round_7_2 divide_right_mono)
  ultimately have bb: "b \<le> b'" and b0: "0 \<le> b"
    unfolding b_def b'_def float_div_def by (simp_all add: float_round_mono float_round_nonneg)
  have "0 \<le> a + b" "a + b \<le> a' + b'" using aa bb a0 b0 by simp_all
  then have s: "float_add a b \<le> float_add a' b'" and s0: "0 \<le> float_add a b"
    unfolding float_add_def by (simp_all add: float_round_mono float_round_nonneg)
  have "0 \<le> float_add a b / 2" "float_add a b / 2 \<le> float_add a' b' / 2" using s s0 by simp_all
  then have "float_round (float_add a b / 2) \<le> float_round (float_add a' b' / 2)"
    by (rule float_round_mono)
  then show ?thesis
    unfolding float_estimate_def float_div_2 a_def a'_def b_def b'_def .
qed

lemma estimate_tokens_est:
  "estimate_tokens text = \<lfloor>float_estimate (int (length (split text))) (int (length text))\<rfloor>"
proof (cases "text = []")
  case True
  have "float_estimate 0 0 = 0"
    by (simp add: float_estimate_def float_div_def float_add_def float_mul_def float_of_int_def float_round_def)
  with True show ?thesis by (simp add: estimate_tokens_def split_def)
next
  case False
  have "0 \<le> float_estimate (int (length (split text))) (int (length text))"
    by (rule est_nonneg) simp_all
  with False show ?thesis
    by (simp add: estimate_tokens_def Let_def int_of_float_def float_estimate_def)
qed

lemma estimate_tokens_nonneg: "0 \<le> estimate_tokens text"
  unfolding estimate_tokens_est using est_nonneg[of "int (length (split text))" "int (length text)"]
  by simp

lemma estimate_tokens_mono: "estimate_tokens t \<le> estimate_tokens (t @ s)"
proof -
  have "float_estimate (int (length (split t))) (int (length t))
        \<le> float_estimate (int (length (split (t @ s)))) (int (length (t @ s)))"
    using split_append_mono[of t s] by (intro est_mono) simp_all
  then show ?thesis unfolding estimate_tokens_est by (rule floor_mono)
qed

lemma estimate_tokens_closed_form:
  assumes "length text < 2 ^ 40"
  shows "estimate_tokens text = (91 * int (length (split text)) + 20 * int (length text)) div 140"
proof (cases "text = []")
  case True
  then show ?thesis by (simp add: estimate_tokens_def split_def)
next
  case False
  have c: "int (length text) < 2 ^ 40" using assms by (metis of_nat_less_iff of_nat_numeral of_nat_power)
  have "int_of_float (float_estimate (int (length (split text))) (int (length text))) =
        (91 * int (length (split text)) + 20 * int (length text)) div 140"
    unfolding float_estimate_def using split_length_le[of "text"] False c
    by (intro estimate_core) simp_all
  with False show ?thesis by (simp add: estimate_tokens_def Let_def float_estimate_def)
qed

lemma exact_formula_floor:
  "\<lfloor>(of_int w * (13 / 10) + of_int c / (35 / 10)) / 2 :: rat\<rfloor> = (91 * w + 20 * c) div 140"
proof -
  have "(of_int w * (13 / 10) + of_int c / (35 / 10)) / 2 = (of_int (91 * w + 20 * c) :: rat) / of_int 140"
    by simp
  then show ?thesis by (simp only: floor_divide_of_int_eq)
qed

lemma strip_fallback:
  "strip (py ''Summary generation failed after multiple attempts.'') = py ''Summary generation failed after multiple attempts.''"
  "length (py ''Summary generation failed after multiple attempts.'') = 50"
  by (simp_all add: py_def strip_def is_space_def)

lemma attempt_body_Inr:
  "attempt_body E docs ct tok pr tr = (Inr s, tr') \<Longrightarrow> strip s = s \<and> 50 \<le> length s"
  by (auto simp: attempt_body_def strip_strip split: prod.splits sum.splits if_splits)

lemma retry_loop_outcome:
  "retry_loop E docs ct tok pr m a tr = (res, tr') \<Longrightarrow>
     (\<exists>s. res = Inr s \<and> strip s = s \<and> 50 \<le> length s) \<or>
     (\<exists>es. es \<noteq> [] \<and> int (length es) = m - a \<and>
        res = Inl (RuntimeError (py ''Failed to generate summary after '' @ str_int m @
                                 py '' attempts: '' @ exn_str (last es))) \<and>
        failed_attempts (attempt_body E docs ct tok pr) a tr es tr')"
proof (induction E docs ct tok pr m a tr rule: retry_loop.induct)
  case (1 E docs ct tok pr m a tr)
  show ?case
  proof (cases "a < m")
    case False
    with "1.prems" have "res = Inr (py ''Summary generation failed after multiple attempts.'')"
      by (auto simp add: retry_loop.simps[of E docs ct tok pr m a tr])
    then show ?thesis using strip_fallback by simp
  next
    case True
    obtain r tr1 where body: "attempt_body E docs ct tok pr tr = (r, tr1)"
      by (cases "attempt_body E docs ct tok pr tr")
    show ?thesis
    proof (cases r)
      case (Inr s)
      with True body "1.prems" have "res = Inr s"
        by (simp add: retry_loop.simps[of E docs ct tok pr m a tr])
      moreover have "strip s = s \<and> 50 \<le> length s"
        using attempt_body_Inr[of E docs ct tok pr tr s tr1] body Inr by simp
      ultimately show ?thesis by simp
    next
      case (Inl e)
      define tr2 where "tr2 = logger WARNING (py ''Attempt '' @ str_int (a + 1) @ py '' failed: '' @ exn_str e) tr1"
      have tr2: "tr2 = tr1\<lparr>log_lines := log_lines tr1 @ [warning_line a e]\<rparr>"
        by (simp add: tr2_def logger_def warning_line_def)
      have unfold: "retry_loop E docs ct tok pr m a tr =
          (if a = m - 1
           then (Inl (RuntimeError (py ''Failed to generate summary after '' @ str_int m @
                                 py '' attempts: '' @ exn_str e)), tr2)
           else retry_loop E docs ct tok pr m (a + 1) tr2)"
        using \<open>a < m\<close> body Inl
        by (simp add: retry_loop.simps[of E docs ct tok pr m a tr] tr2_def Let_def)
      show ?thesis
      proof (cases "a = m - 1")
        case True
        with unfold "1.prems"
        have "res = Inl (RuntimeError (py ''Failed to generate summary after '' @ str_int m @
                                 py '' attempts: '' @ exn_str e))" and "tr' = tr2"
          by simp_all
        moreover have "failed_attempts (attempt_body E docs ct tok pr) a tr [e] tr2"
          using body Inl tr2 by simp
        ultimately have "[e] \<noteq> [] \<and> int (length [e]) = m - a \<and>
           res = Inl (RuntimeError (py ''Failed to generate summary after '' @ str_int m @
                                 py '' attempts: '' @ exn_str (last [e]))) \<and>
           failed_attempts (attempt_body E docs ct tok pr) a tr [e] tr'"
          using True by simp
        then show ?thesis by blast
      next
        case False
        with unfold "1.prems"
        have rec: "retry_loop E docs ct tok pr m (a + 1) tr2 = (res, tr')"
          by simp
        have "(\<exists>s. res = Inr s \<and> strip s = s \<and> 50 \<le> length s) \<or>
          (\<exists>es. es \<noteq> [] \<and> int (length es) = m - (a + 1) \<and>
             res = Inl (RuntimeError (py ''Failed to generate summary after '' @ str_int m @
                                 py '' attempts: '' @ exn_str (last es))) \<and>
             failed_attempts (attempt_body E docs ct tok pr) (a + 1) tr2 es tr')"
          using "1.IH"[OF \<open>a < m\<close> body[symmetric] Inl refl False] rec
          unfolding tr2_def by simp
        then consider s where "res = Inr s" "strip s = s" "50 \<le> length s"
          | es where "es \<noteq> []" "int (length es) = m - (a + 1)"
             "res = Inl (RuntimeError (py ''Failed to generate summary after '' @ str_int m @
                                 py '' attempts: '' @ exn_str (last es)))"
             "failed_attempts (attempt_body E docs ct tok pr) (a + 1) tr2 es tr'"
          by blast
        then show ?thesis
        proof cases
          case 1
          then show ?thesis by blast
        next
          case 2
          have "failed_attempts (attempt_body E docs ct tok pr) a tr (e # es) tr'"
            using body Inl 2(4) tr2 by simp
          moreover have "int (length (e # es)) = m - a" using 2(2) by simp
          moreover have "last (e # es) = last es" using 2(1) by simp
          moreover have "e # es \<noteq> []" by simp
          ultimately have "e # es \<noteq> [] \<and> int (length (e # es)) = m - a \<and>
             res = Inl (RuntimeError (py ''Failed to generate summary after '' @ str_int m @
                                 py '' attempts: '' @ exn_str (last (e # es)))) \<and>
             failed_attempts (attempt_body E docs ct tok pr) a tr (e # es) tr'"
            using 2(3) by simp
          then show ?thesis by blast
        qed
      qed
    qed
  qed
qed








lemma summarize_chain_blank:
  "filter (\<lambda>d. strip (page_content d) \<noteq> []) docs = [] \<Longrightarrow>
     \<exists>msg. summarize_chain E docs max_retries tr = (Inl (ValueError msg), tr)"
  by (simp add: summarize_chain_def Let_def)

lemma summarize_chain_nonblank:
  assumes "filter (\<lambda>d. strip (page_content d) \<noteq> []) docs \<noteq> []"
  shows "summarize_chain E docs max_retries tr =
     retry_loop E (filter (\<lambda>d. strip (page_content d) \<noteq> []) docs)
       (detect_content_type (filter (\<lambda>d. strip (page_content d) \<noteq> []) docs))
       (estimate_tokens (join (py '' '') (map page_content (filter (\<lambda>d. strip (page_content d) \<noteq> []) docs))))
       (create_enhanced_prompts (detect_content_type (filter (\<lambda>d. strip (page_content d) \<noteq> []) docs)))
       max_retries 0 (summarize_prologue docs tr)"
proof -
  have "docs \<noteq> []" using assms by auto
  then show ?thesis using assms
    by (simp add: summarize_chain_def summarize_prologue_def Let_def)
qed

section \<open>Claims about the summarization orchestrator\<close>


section \<open>Claims about the content classifier\<close>

text \<open>
  C3, as amended. The classifier joins the page contents of the first three documents with
  a space, lower-cases the result and counts, for each of the two fixed keyword lists, how
  many of its keywords occur in the text as a substring: a keyword that occurs several
  times counts once. With \<open>t\<close> and \<open>n\<close> these two numbers, the label is \<open>technical\<close> iff
  \<open>t > n\<close> and \<open>t > 3\<close>, \<open>narrative\<close> iff that fails and \<open>n > t\<close> and \<open>n > 2\<close>, and
  \<open>general\<close> otherwise.
\<close>

theorem detect_content_type_distinct_keywords:
  "(let text = lower (join (py '' '') (map page_content (take 3 docs)));
        t = card {k \<in> set technical_indicators. \<exists>pre post. text = pre @ k @ post};
        n = card {k \<in> set narrative_indicators. \<exists>pre post. text = pre @ k @ post}
    in (detect_content_type docs = Technical \<longleftrightarrow> t > n \<and> t > 3) \<and>
       (detect_content_type docs = Narrative \<longleftrightarrow> \<not> (t > n \<and> t > 3) \<and> n > t \<and> n > 2) \<and>
       (detect_content_type docs = General \<longleftrightarrow> \<not> (t > n \<and> t > 3) \<and> \<not> (n > t \<and> n > 2)))"
proof -
  have z: "score ks [] = 0" if "[] \<notin> set ks" for ks
    using that by (induction ks) (auto simp: score_def)
  have ne: "[] \<notin> set technical_indicators" "[] \<notin> set narrative_indicators"
    by (simp_all add: technical_indicators_def narrative_indicators_def py_def)
  have "detect_content_type docs =
     (let text_lower = lower (join (py '' '') (map page_content (take 3 docs)));
          technical_score = score technical_indicators text_lower;
          narrative_score = score narrative_indicators text_lower
      in if technical_score > narrative_score \<and> technical_score > 3 then Technical
         else if narrative_score > technical_score \<and> narrative_score > 2 then Narrative
         else General)"
    by (cases "docs = []") (simp_all add: detect_content_type_def Let_def lower_def z ne)
  then show ?thesis
    by (simp add: Let_def
        score_card[OF distinct_technical_indicators] score_card[OF distinct_narrative_indicators])
qed

text \<open>
  C3 as stated fails: the text that repeats the technical keyword \<open>algorithm\<close> four times
  has four keyword occurrences and no narrative one, so counting occurrences makes it
  \<open>technical\<close>, but the classifier finds one keyword of the list and answers \<open>general\<close>.
\<close>

theorem detect_content_type_repeated_keyword_counterexample:
  "occurrence_count technical_indicators
     (lower (py ''algorithm algorithm algorithm algorithm'')) = 4 \<and>
   occurrence_count narrative_indicators
     (lower (py ''algorithm algorithm algorithm algorithm'')) = 0 \<and>
   classify_by_occurrences
     [\<lparr>page_content = py ''algorithm algorithm algorithm algorithm'', metadata = []\<rparr>] = Technical \<and>
   detect_content_type
     [\<lparr>page_content = py ''algorithm algorithm algorithm algorithm'', metadata = []\<rparr>] = General"
  by (simp add: detect_content_type_def classify_by_occurrences_def occurrence_count_def score_def
      technical_indicators_def narrative_indicators_def py_def lower_def lower_char_def)

section \<open>Claims about the token estimator\<close>

text \<open>
  C7. The estimate of the empty text is 0, the estimate is never negative, and it is the
  floor of \<open>(word_count * 1.3 + char_count / 3.5) / 2\<close> computed in float arithmetic, where
  \<open>word_count\<close> is the number of whitespace-separated words and \<open>char_count\<close> the number of
  characters. For every text of fewer than \<open>2^40\<close> characters the float rounding does not
  show: the estimate is the floor of the same expression in exact arithmetic.
\<close>

theorem estimate_tokens_formula:
  "estimate_tokens [] = 0 \<and> 0 \<le> estimate_tokens text \<and>
   estimate_tokens text =
     \<lfloor>float_div
        (float_add (float_mul (float_of_int (int (length (split text)))) (float_round (13 / 10)))
                   (float_div (float_of_int (int (length text))) (float_round (35 / 10))))
        (float_of_int 2)\<rfloor> \<and>
   (length text < 2 ^ 40 \<longrightarrow>
      estimate_tokens text =
        \<lfloor>(of_int (int (length (split text))) * (13 / 10) +
          of_int (int (length text)) / (35 / 10)) / 2 :: rat\<rfloor>)"
proof (intro conjI impI)
  show "estimate_tokens [] = 0" by (simp add: estimate_tokens_def)
  show "0 \<le> estimate_tokens text" by (rule estimate_tokens_nonneg)
  show "estimate_tokens text =
     \<lfloor>float_div
        (float_add (float_mul (float_of_int (int (length (split text)))) (float_round (13 / 10)))
                   (float_div (float_of_int (int (length text))) (float_round (35 / 10))))
        (float_of_int 2)\<rfloor>"
    using estimate_tokens_est[of "text"] by (simp only: float_estimate_def)
next
  assume "length text < 2 ^ 40"
  then show "estimate_tokens text =
        \<lfloor>(of_int (int (length (split text))) * (13 / 10) +
          of_int (int (length text)) / (35 / 10)) / 2 :: rat\<rfloor>"
    by (simp only: estimate_tokens_closed_form exact_formula_floor)
qed

theorem estimate_tokens_formula_witness:
  "length (py ''hello world this is a test'') < 2 ^ 40 \<and>
   length (split (py ''hello world this is a test'')) = 6 \<and>
   estimate_tokens (py ''hello world this is a test'') = 7"
proof -
  have l: "length (py ''hello world this is a test'') < 2 ^ 40" by (simp add: py_def)
  have w: "split (py ''hello world this is a test'') =
           [py ''hello'', py ''world'', py ''this'', py ''is'', py ''a'', py ''test'']"
    by (simp add: split_def py_def is_space_def)
  have "estimate_tokens (py ''hello world this is a test'') =
        \<lfloor>(of_int (int (length (split (py ''hello world this is a test'')))) * (13 / 10) +
          of_int (int (length (py ''hello world this is a test''))) / (35 / 10)) / 2 :: rat\<rfloor>"
    using estimate_tokens_formula[of "py ''hello world this is a test''"] l by blast
  also have "\<dots> = (91 * 6 + 20 * 26) div 140"
    unfolding exact_formula_floor w by (simp add: py_def)
  finally show ?thesis using l w by simp
qed

text \<open>
  C8. Appending characters to a text never lowers its estimate.
\<close>

theorem estimate_tokens_monotone_under_extension:
  "estimate_tokens t \<le> estimate_tokens (t @ s)"
  by (rule estimate_tokens_mono)

lemma retry_loop_no_attempt:
  "max_retries \<le> attempt \<Longrightarrow>
     retry_loop E docs ct tok pr max_retries attempt tr =
       (Inr (py ''Summary generation failed after multiple attempts.''), tr)"
  by (simp add: retry_loop.simps[of E docs ct tok pr max_retries attempt tr])






lemma logger_calls [simp]: "llm_calls (logger lvl msg tr) = llm_calls tr"
  by (simp add: logger_def)

lemma summarize_prologue_calls: "llm_calls (summarize_prologue docs tr) = llm_calls tr"
  by (simp add: summarize_prologue_def Let_def)




lemma nonblank_filter_iff:
  "filter (\<lambda>d. strip (page_content d) \<noteq> []) docs = [] \<longleftrightarrow>
     (\<forall>d\<in>set docs. strip (page_content d) = [])"
  by (simp add: filter_empty_conv)

lemma summarize_chain_result_kinds:
  assumes "filter (\<lambda>d. strip (page_content d) \<noteq> []) docs \<noteq> []"
  shows "(\<exists>s. fst (summarize_chain E docs max_retries tr) = Inr s \<and> strip s = s \<and> 50 \<le> length s) \<or>
         (\<exists>msg. fst (summarize_chain E docs max_retries tr) = Inl (RuntimeError msg))"
proof -
  obtain res tr' where run: "summarize_chain E docs max_retries tr = (res, tr')"
    by (cases "summarize_chain E docs max_retries tr")
  then have loop: "retry_loop E (filter (\<lambda>d. strip (page_content d) \<noteq> []) docs)
       (detect_content_type (filter (\<lambda>d. strip (page_content d) \<noteq> []) docs))
       (estimate_tokens (join (py '' '') (map page_content (filter (\<lambda>d. strip (page_content d) \<noteq> []) docs))))
       (create_enhanced_prompts (detect_content_type (filter (\<lambda>d. strip (page_content d) \<noteq> []) docs)))
       max_retries 0 (summarize_prologue docs tr) = (res, tr')"
    using summarize_chain_nonblank[OF assms, of E max_retries tr] by simp
  from retry_loop_outcome[OF loop] show ?thesis unfolding run by auto
qed





text \<open>
  C6. \<open>summarize_chain\<close> raises a \<open>ValueError\<close> exactly when the document sequence is empty
  or every document is blank after stripping, and then it leaves the trace as it found it:
  no request has gone to the language model and no attempt has been logged.
\<close>

theorem summarize_chain_value_error_iff_blank:
  "((\<exists>msg. fst (summarize_chain E docs max_retries tr) = Inl (ValueError msg)) \<longleftrightarrow>
      (\<forall>d\<in>set docs. strip (page_content d) = [])) \<and>
   ((\<forall>d\<in>set docs. strip (page_content d) = []) \<longrightarrow>
      snd (summarize_chain E docs max_retries tr) = tr)"
proof (cases "filter (\<lambda>d. strip (page_content d) \<noteq> []) docs = []")
  case True
  then have all: "\<forall>d\<in>set docs. strip (page_content d) = []" by (simp add: nonblank_filter_iff)
  from summarize_chain_blank[OF True, of E max_retries tr]
  show ?thesis using all by auto
next
  case False
  then have notall: "\<not> (\<forall>d\<in>set docs. strip (page_content d) = [])" by (simp add: nonblank_filter_iff)
  from summarize_chain_result_kinds[OF False, of E max_retries tr]
  have "\<not> (\<exists>msg. fst (summarize_chain E docs max_retries tr) = Inl (ValueError msg))" by auto
  with notall show ?thesis by blast
qed

theorem summarize_chain_value_error_iff_blank_witness:
  "strip (py ''   '') = [] \<and>
   fst (summarize_chain
          \<lparr>llm = (\<lambda>hist req. Inl (OtherException (py ''rate limit''))),
           split_documents = (\<lambda>size overlap seps ds. Inr ds),
           document_separator = [10, 10]\<rparr>
          [\<lparr>page_content = py ''   '', metadata = []\<rparr>] 3
          \<lparr>llm_calls = [], log_lines = []\<rparr>) = Inl (ValueError (py ''All documents are empty'')) \<and>
   snd (summarize_chain
          \<lparr>llm = (\<lambda>hist req. Inl (OtherException (py ''rate limit''))),
           split_documents = (\<lambda>size overlap seps ds. Inr ds),
           document_separator = [10, 10]\<rparr>
          [\<lparr>page_content = py ''   '', metadata = []\<rparr>] 3
          \<lparr>llm_calls = [], log_lines = []\<rparr>) = \<lparr>llm_calls = [], log_lines = []\<rparr>"
proof -
  define E where "E = \<lparr>llm = (\<lambda>hist req. (Inl (OtherException (py ''rate limit'')) :: exn + pystr)),
           split_documents = (\<lambda>size overlap seps ds. (Inr ds :: exn + doc list)),
           document_separator = [10, 10]\<rparr>"
  have b: "\<forall>d\<in>set [\<lparr>page_content = py ''   '', metadata = []\<rparr>]. strip (page_content d) = []"
    by (simp add: strip_def py_def is_space_def)
  have "fst (summarize_chain E [\<lparr>page_content = py ''   '', metadata = []\<rparr>] 3
          \<lparr>llm_calls = [], log_lines = []\<rparr>) = Inl (ValueError (py ''All documents are empty''))"
    by (simp add: summarize_chain_def Let_def strip_def py_def is_space_def)
  moreover have "snd (summarize_chain E [\<lparr>page_content = py ''   '', metadata = []\<rparr>] 3
          \<lparr>llm_calls = [], log_lines = []\<rparr>) = \<lparr>llm_calls = [], log_lines = []\<rparr>"
    using summarize_chain_value_error_iff_blank[of E "[\<lparr>page_content = py ''   '', metadata = []\<rparr>]" 3
        "\<lparr>llm_calls = [], log_lines = []\<rparr>"] b by blast
  moreover have "strip (py ''   '') = []" by (simp add: strip_def py_def is_space_def)
  ultimately show ?thesis unfolding E_def by blast
qed

text \<open>
  C10, as amended. With \<open>max_retries \<le> 0\<close> and a document that is not blank,
  \<open>summarize_chain\<close> sends no request to the language model, raises nothing and returns the
  fixed string \<open>Summary generation failed after multiple attempts.\<close>, whose stripped length
  is exactly 50 characters.
\<close>

theorem summarize_chain_without_attempts:
  assumes "max_retries \<le> 0" and "filter (\<lambda>d. strip (page_content d) \<noteq> []) docs \<noteq> []"
  shows "fst (summarize_chain E docs max_retries tr) =
           Inr (py ''Summary generation failed after multiple attempts.'') \<and>
         llm_calls (snd (summarize_chain E docs max_retries tr)) = llm_calls tr \<and>
         length (strip (py ''Summary generation failed after multiple attempts.'')) = 50"
  unfolding summarize_chain_nonblank[OF assms(2)] retry_loop_no_attempt[OF assms(1)]
  by (simp add: summarize_prologue_calls strip_fallback)

text \<open>
  C10 as stated fails: the fixed string that is returned for \<open>max_retries = 0\<close> is not
  shorter than 50 characters.
\<close>

theorem summarize_chain_without_attempts_counterexample:
  "fst (summarize_chain
          \<lparr>llm = (\<lambda>hist req. Inl (OtherException (py ''rate limit''))),
           split_documents = (\<lambda>size overlap seps ds. Inr ds),
           document_separator = [10, 10]\<rparr>
          [\<lparr>page_content = py ''hello'', metadata = []\<rparr>] 0
          \<lparr>llm_calls = [], log_lines = []\<rparr>) =
     Inr (py ''Summary generation failed after multiple attempts.'') \<and>
   \<not> length (strip (py ''Summary generation failed after multiple attempts.'')) < 50"
proof -
  have nb: "filter (\<lambda>d. strip (page_content d) \<noteq> []) [\<lparr>page_content = py ''hello'', metadata = []\<rparr>] \<noteq> []"
    by (simp add: strip_def py_def is_space_def)
  show ?thesis
    unfolding summarize_chain_nonblank[OF nb] by (simp add: retry_loop_no_attempt strip_fallback)
qed

theorem summarize_chain_without_attempts_witness:
  "(0::int) \<le> 0 \<and>
   filter (\<lambda>d. strip (page_content d) \<noteq> []) [\<lparr>page_content = py ''hello'', metadata = []\<rparr>] \<noteq> [] \<and>
   fst (summarize_chain
          \<lparr>llm = (\<lambda>hist req. Inl (OtherException (py ''rate limit''))),
           split_documents = (\<lambda>size overlap seps ds. Inr ds),
           document_separator = [10, 10]\<rparr>
          [\<lparr>page_content = py ''hello'', metadata = []\<rparr>] 0
          \<lparr>llm_calls = [], log_lines = []\<rparr>) =
     Inr (py ''Summary generation failed after multiple attempts.'') \<and>
   llm_calls (snd (summarize_chain
          \<lparr>llm = (\<lambda>hist req. Inl (OtherException (py ''rate limit''))),
           split_documents = (\<lambda>size overlap seps ds. Inr ds),
           document_separator = [10, 10]\<rparr>
          [\<lparr>page_content = py ''hello'', metadata = []\<rparr>] 0
          \<lparr>llm_calls = [], log_lines = []\<rparr>)) = []"
proof -
  define E where "E = \<lparr>llm = (\<lambda>hist req. (Inl (OtherException (py ''rate limit'')) :: exn + pystr)),
           split_documents = (\<lambda>size overlap seps ds. (Inr ds :: exn + doc list)),
           document_separator = [10, 10]\<rparr>"
  have nb: "filter (\<lambda>d. strip (page_content d) \<noteq> []) [\<lparr>page_content = py ''hello'', metadata = []\<rparr>] \<noteq> []"
    by (simp add: strip_def py_def is_space_def)
  have z: "(0::int) \<le> 0" by simp
  from summarize_chain_without_attempts[OF z nb, of E "\<lparr>llm_calls = [], log_lines = []\<rparr>"] nb
  show ?thesis unfolding E_def by simp
qed





end
